theory Spec2Isabelle
  imports Main
begin

section \<open>Configuration (config.ts)\<close>

text \<open>
  \<^verbatim>\<open>export const CACHE_DURATION_MS = 6 * 60 * 60 * 1000; // 6 hours\<close>
  The constant is computed once, when the module is loaded. \<^verbatim>\<open>Date.now()\<close> and the
  constant are integral numbers of milliseconds far below \<open>2^53\<close>, so JavaScript's
  doubles behave as the integers here.
\<close>

definition CACHE_DURATION_MS :: int where
  "CACHE_DURATION_MS = 6 * 60 * 60 * 1000"

section \<open>The cache store (utils.ts)\<close>

text \<open>The parameter type \<^verbatim>\<open>"win" | "linux"\<close> and the string each value stands for.\<close>

datatype bdsType = Win | Linux

fun typeName :: "bdsType \<Rightarrow> string" where
  "typeName Win = ''win''"
| "typeName Linux = ''linux''"

text \<open>\<^verbatim>\<open>interface CacheEntry { version: string; timestamp: number; refreshing?: boolean }\<close>\<close>

record CacheEntry =
  version :: string
  timestamp :: int
  refreshing :: bool

text \<open>
  An asynchronous function that has reached its \<^verbatim>\<open>await lookupLatestVersionInternal(...)\<close>
  is a task waiting for that fetch to settle. There are three such places in utils.ts:
  in \<^verbatim>\<open>lookupLatestVersion\<close> (the cache-miss path), in \<^verbatim>\<open>refreshCacheEntry\<close>
  (which holds on to the entry object it read before the await, or to \<^verbatim>\<open>undefined\<close>),
  and in the callback of \<^verbatim>\<open>initializeCache\<close>.
\<close>

datatype task =
    AwaitLookup bdsType bool
  | AwaitRefresh bdsType bool "nat option"
  | AwaitInit bdsType bool

text \<open>
  The process state. Cache entries are JavaScript objects: \<^verbatim>\<open>refreshCacheEntry\<close> mutates
  the object it captured while \<^verbatim>\<open>setCachedVersion\<close> stores a new object under the key,
  so the entries live in a store of objects (\<open>heap\<close>, an address is an index) and
  \<open>versionCache\<close> maps a key to the address of its current entry. \<open>pending\<close> holds
  the tasks whose fetch is in flight and \<open>calls\<close> counts the invocations of
  \<^verbatim>\<open>lookupLatestVersionInternal\<close> made so far.
\<close>

record state =
  versionCache :: "string \<rightharpoonup> nat"
  heap :: "CacheEntry list"
  pending :: "task list"
  calls :: nat

definition initial :: state where
  "initial = \<lparr>versionCache = Map.empty, heap = [], pending = [], calls = 0\<rparr>"

definition getCacheKey :: "bdsType \<Rightarrow> bool \<Rightarrow> string" where
  "getCacheKey bdsType bdsPreview =
     typeName bdsType @ ''-'' @ (if bdsPreview then ''preview'' else ''stable'')"

definition isCacheValid :: "int \<Rightarrow> CacheEntry \<Rightarrow> bool" where
  "isCacheValid now entry \<longleftrightarrow> now - timestamp entry < CACHE_DURATION_MS"

definition getCachedVersion :: "bdsType \<Rightarrow> bool \<Rightarrow> state \<Rightarrow> string option" where
  "getCachedVersion bdsType bdsPreview s =
     (case versionCache s (getCacheKey bdsType bdsPreview) of
        None \<Rightarrow> None
      | Some a \<Rightarrow> Some (version (heap s ! a)))"

definition setCachedVersion :: "int \<Rightarrow> bdsType \<Rightarrow> bool \<Rightarrow> string \<Rightarrow> state \<Rightarrow> state" where
  "setCachedVersion now bdsType bdsPreview v s =
     s\<lparr>versionCache := (versionCache s)(getCacheKey bdsType bdsPreview \<mapsto> length (heap s)),
       heap := heap s @ [\<lparr>version = v, timestamp = now, refreshing = False\<rparr>]\<rparr>"

section \<open>The fetcher\<close>

text \<open>
  \<^verbatim>\<open>lookupLatestVersionInternal\<close> drives a browser; what the page answers is the
  environment's choice. \<open>Threw\<close> stands for any of its awaits throwing (launch,
  navigation, click, the 10 second wait for the link); \<open>Link href m\<close> for the link it
  read from the download button together with capture group 1 of
  \<^verbatim>\<open>href.match(/bedrock-server-(\d+\.\d+\.\d+\.\d+)\.zip$/)\<close> (\<open>None\<close> when the
  expression does not match). The function's own two guards, \<^verbatim>\<open>if (!href)\<close> and
  \<^verbatim>\<open>if (!m?.[1])\<close>, are modelled as written.
\<close>

datatype scrape = Threw | Link string "string option"

datatype fetch_error = ScrapeFailed | NoDownloadLink | ParseFailed

fun lookupLatestVersionInternal :: "scrape \<Rightarrow> fetch_error + string" where
  "lookupLatestVersionInternal Threw = Inl ScrapeFailed"
| "lookupLatestVersionInternal (Link href m) =
     (if href = [] then Inl NoDownloadLink
      else case m of
             None \<Rightarrow> Inl ParseFailed
           | Some g \<Rightarrow> if g = [] then Inl ParseFailed else Inr g)"

text \<open>Calling the fetcher and suspending at the \<^verbatim>\<open>await\<close>.\<close>

definition startFetch :: "task \<Rightarrow> state \<Rightarrow> state" where
  "startFetch t s = s\<lparr>pending := pending s @ [t], calls := Suc (calls s)\<rparr>"

section \<open>Background refresh\<close>

text \<open>\<^verbatim>\<open>refreshCacheEntry\<close> up to its \<^verbatim>\<open>await\<close>: the guard on \<^verbatim>\<open>entry?.refreshing\<close>,
  the mark on the entry object, the call of the fetcher.\<close>

definition refreshCacheEntry :: "bdsType \<Rightarrow> bool \<Rightarrow> state \<Rightarrow> state" where
  "refreshCacheEntry bdsType bdsPreview s =
     (case versionCache s (getCacheKey bdsType bdsPreview) of
        None \<Rightarrow> startFetch (AwaitRefresh bdsType bdsPreview None) s
      | Some a \<Rightarrow>
          if refreshing (heap s ! a) then s
          else startFetch (AwaitRefresh bdsType bdsPreview (Some a))
                 (s\<lparr>heap := (heap s)[a := (heap s ! a)\<lparr>refreshing := True\<rparr>]\<rparr>))"

text \<open>\<^verbatim>\<open>refreshCacheEntry\<close> after the \<^verbatim>\<open>await\<close>: the rest of the \<^verbatim>\<open>try\<close> block when the
  fetch resolved, the \<^verbatim>\<open>catch\<close> block (which writes to the captured object) when it
  rejected. The promise of \<^verbatim>\<open>refreshCacheEntry\<close> resolves either way.\<close>

definition refreshCacheEntry_resume ::
  "int \<Rightarrow> bdsType \<Rightarrow> bool \<Rightarrow> nat option \<Rightarrow> fetch_error + string \<Rightarrow> state \<Rightarrow> state" where
  "refreshCacheEntry_resume now bdsType bdsPreview entry r s =
     (case r of
        Inr newVersion \<Rightarrow> setCachedVersion now bdsType bdsPreview newVersion s
      | Inl error \<Rightarrow>
          (case entry of
             None \<Rightarrow> s
           | Some a \<Rightarrow> s\<lparr>heap := (heap s)[a := (heap s ! a)\<lparr>refreshing := False\<rparr>]\<rparr>))"

definition checkAndRefreshCache :: "int \<Rightarrow> bdsType \<Rightarrow> bool \<Rightarrow> state \<Rightarrow> state" where
  "checkAndRefreshCache now bdsType bdsPreview s =
     (case versionCache s (getCacheKey bdsType bdsPreview) of
        None \<Rightarrow> refreshCacheEntry bdsType bdsPreview s
      | Some a \<Rightarrow>
          if \<not> isCacheValid now (heap s ! a) then refreshCacheEntry bdsType bdsPreview s
          else s)"

section \<open>Lookup\<close>

text \<open>
  \<^verbatim>\<open>lookupLatestVersion\<close> up to its first \<^verbatim>\<open>await\<close>. \<open>Some v\<close>: the promise is
  resolved with \<open>v\<close> without awaiting anything; \<open>None\<close>: it is waiting for the fetch.
  \<^verbatim>\<open>if (cachedVersion)\<close> is JavaScript truthiness: neither \<^verbatim>\<open>null\<close> nor the empty
  string.
\<close>

definition lookupLatestVersion :: "int \<Rightarrow> bdsType \<Rightarrow> bool \<Rightarrow> state \<Rightarrow> string option \<times> state" where
  "lookupLatestVersion now bdsType bdsPreview s =
     (case getCachedVersion bdsType bdsPreview s of
        Some cachedVersion \<Rightarrow>
          if cachedVersion \<noteq> [] then
            (Some cachedVersion, checkAndRefreshCache now bdsType bdsPreview s)
          else (None, startFetch (AwaitLookup bdsType bdsPreview) s)
      | None \<Rightarrow> (None, startFetch (AwaitLookup bdsType bdsPreview) s))"

text \<open>\<^verbatim>\<open>lookupLatestVersion\<close> after the \<^verbatim>\<open>await\<close>: a rejected fetch rejects the lookup.\<close>

definition lookupLatestVersion_resume ::
  "int \<Rightarrow> bdsType \<Rightarrow> bool \<Rightarrow> fetch_error + string \<Rightarrow> state \<Rightarrow> (fetch_error + string) \<times> state" where
  "lookupLatestVersion_resume now bdsType bdsPreview r s =
     (case r of
        Inr v \<Rightarrow> (Inr v, setCachedVersion now bdsType bdsPreview v s)
      | Inl e \<Rightarrow> (Inl e, s))"

section \<open>Warm-up\<close>

definition combinations :: "(bdsType \<times> bool) list" where
  "combinations = [(Win, False), (Win, True), (Linux, False), (Linux, True)]"

text \<open>\<^verbatim>\<open>initializeCache\<close> up to \<^verbatim>\<open>await Promise.all(initPromises)\<close>: \<^verbatim>\<open>map\<close> runs each
  callback up to its own \<^verbatim>\<open>await\<close>, so the four fetches are started in order.\<close>

definition initializeCache :: "state \<Rightarrow> state" where
  "initializeCache s = foldl (\<lambda>s' (t, p). startFetch (AwaitInit t p) s') s combinations"

text \<open>One callback after its \<^verbatim>\<open>await\<close>, with the settlement of the callback's promise:
  the \<^verbatim>\<open>catch\<close> block only logs.\<close>

definition initCallback_resume ::
  "int \<Rightarrow> bdsType \<Rightarrow> bool \<Rightarrow> fetch_error + string \<Rightarrow> state \<Rightarrow> (fetch_error + unit) \<times> state" where
  "initCallback_resume now t p r s =
     (case r of
        Inr v \<Rightarrow> (Inr (), setCachedVersion now t p v s)
      | Inl error \<Rightarrow> (Inr (), s))"

text \<open>\<^verbatim>\<open>Promise.all\<close> over promises listed in the order they settle: rejected by the
  first rejection, resolved when all have resolved.\<close>

fun promise_all :: "('e + unit) list \<Rightarrow> 'e + unit" where
  "promise_all [] = Inr ()"
| "promise_all (Inl e # rs) = Inl e"
| "promise_all (Inr u # rs) = promise_all rs"

text \<open>The four callbacks settling in the order and with the answers the environment
  chooses: each element names the key, the time of the settlement and the page's
  answer.\<close>

fun settleInits ::
  "((bdsType \<times> bool) \<times> int \<times> scrape) list \<Rightarrow> state \<Rightarrow> (fetch_error + unit) list \<times> state" where
  "settleInits [] s = ([], s)"
| "settleInits (((t, p), now, raw) # rest) s =
     (let (r, s') = initCallback_resume now t p (lookupLatestVersionInternal raw)
                      (s\<lparr>pending := remove1 (AwaitInit t p) (pending s)\<rparr>);
          (rs, s'') = settleInits rest s'
      in (r # rs, s''))"

text \<open>The whole of \<^verbatim>\<open>initializeCache\<close>: its promise and the state it leaves.\<close>

definition initializeCache_run ::
  "((bdsType \<times> bool) \<times> int \<times> scrape) list \<Rightarrow> state \<Rightarrow> (fetch_error + unit) \<times> state" where
  "initializeCache_run env s =
     (let (rs, s') = settleInits env (initializeCache s) in (promise_all rs, s'))"

section \<open>The status endpoint (index.ts)\<close>

text \<open>One element of \<^verbatim>\<open>entries\<close>: \<^verbatim>\<open>{ type, preview, cached, version }\<close>.\<close>

datatype statusEntry = StatusEntry string bool bool "string option"

text \<open>The body of the response of \<^verbatim>\<open>GET /cache/status\<close>. \<open>responseTimestamp\<close> is its
  field \<^verbatim>\<open>timestamp: new Date().toISOString()\<close>, kept as the instant it prints.\<close>

record statusResponse =
  cacheDurationMs :: int
  cacheDurationHours :: int
  entries :: "statusEntry list"
  responseTimestamp :: int

definition cacheStatus :: "int \<Rightarrow> state \<Rightarrow> statusResponse" where
  "cacheStatus now s =
     \<lparr>cacheDurationMs = CACHE_DURATION_MS,
      cacheDurationHours = CACHE_DURATION_MS div (1000 * 60 * 60),
      entries =
        map (\<lambda>(t, p).
               let cachedVersion = getCachedVersion t p s
               in StatusEntry (typeName t) p (cachedVersion \<noteq> None)
                    (case cachedVersion of
                       None \<Rightarrow> None
                     | Some v \<Rightarrow> if v \<noteq> [] then Some v else None))
          combinations,
      responseTimestamp = now\<rparr>"

section \<open>The process as a transition system\<close>

text \<open>
  Node runs one callback at a time, so the process is a sequence of atomic steps: a
  request calls \<^verbatim>\<open>lookupLatestVersion\<close>, a fetch in flight settles and its task
  resumes, the listen callback calls \<^verbatim>\<open>initializeCache\<close>, a request reads the status.
  Each step that reads the clock carries the value of \<^verbatim>\<open>Date.now()\<close>.
\<close>

datatype event =
    Lookup int bdsType bool
  | Settle int task scrape
  | Startup
  | Status int

text \<open>What a step hands to a caller: nothing, a resolved or a rejected lookup, or the
  status body.\<close>

datatype reply =
    NoReply
  | Resolved string
  | Rejected fetch_error
  | StatusReply statusResponse

fun resume :: "int \<Rightarrow> task \<Rightarrow> fetch_error + string \<Rightarrow> state \<Rightarrow> reply \<times> state" where
  "resume now (AwaitLookup t p) r s =
     (case lookupLatestVersion_resume now t p r s of
        (Inr v, s') \<Rightarrow> (Resolved v, s')
      | (Inl e, s') \<Rightarrow> (Rejected e, s'))"
| "resume now (AwaitRefresh t p entry) r s =
     (NoReply, refreshCacheEntry_resume now t p entry r s)"
| "resume now (AwaitInit t p) r s =
     (NoReply, snd (initCallback_resume now t p r s))"

fun step :: "event \<Rightarrow> state \<Rightarrow> reply \<times> state" where
  "step (Lookup now t p) s =
     (case lookupLatestVersion now t p s of
        (Some v, s') \<Rightarrow> (Resolved v, s')
      | (None, s') \<Rightarrow> (NoReply, s'))"
| "step (Settle now t raw) s =
     (if t \<in> set (pending s)
      then resume now t (lookupLatestVersionInternal raw)
             (s\<lparr>pending := remove1 t (pending s)\<rparr>)
      else (NoReply, s))"
| "step Startup s = (NoReply, initializeCache s)"
| "step (Status now) s = (StatusReply (cacheStatus now s), s)"

definition run :: "event list \<Rightarrow> state \<Rightarrow> state" where
  "run evs s = fold (\<lambda>e s'. snd (step e s')) evs s"

fun taskKey :: "task \<Rightarrow> bdsType \<times> bool" where
  "taskKey (AwaitLookup t p) = (t, p)"
| "taskKey (AwaitRefresh t p entry) = (t, p)"
| "taskKey (AwaitInit t p) = (t, p)"

text \<open>What the cache holds for a key: the version and the fetch time of its entry.\<close>

definition cached :: "bdsType \<Rightarrow> bool \<Rightarrow> state \<Rightarrow> (string \<times> int) option" where
  "cached t p s =
     map_option (\<lambda>a. (version (heap s ! a), timestamp (heap s ! a)))
       (versionCache s (getCacheKey t p))"

text \<open>
  The states the process can be in: every key's entry is an object of the store, and
  every stored version is a non-empty string (the fetcher returns no other).
\<close>

definition wellFormed :: "state \<Rightarrow> bool" where
  "wellFormed s \<longleftrightarrow>
     list_all (\<lambda>(t, p). case versionCache s (getCacheKey t p) of
                          None \<Rightarrow> True
                        | Some a \<Rightarrow> a < length (heap s)) combinations
     \<and> list_all (\<lambda>e. version e \<noteq> []) (heap s)"

text \<open>
  What the guard of \<open>refreshCacheEntry\<close> maintains. The entry a key has in the
  cache is an object of the store and is marked as refreshing exactly when one refresh
  in flight holds it (and then only one does); an entry held by a refresh in flight
  belongs to that refresh's key alone; and no two keys share an entry.
\<close>

definition guarded :: "state \<Rightarrow> bool" where
  "guarded s \<longleftrightarrow>
     (\<forall>t p a. versionCache s (getCacheKey t p) = Some a \<longrightarrow>
        a < length (heap s)
        \<and> count_list (pending s) (AwaitRefresh t p (Some a))
            = (if refreshing (heap s ! a) then 1 else 0))
     \<and> (\<forall>t p a. AwaitRefresh t p (Some a) \<in> set (pending s) \<longrightarrow>
        a < length (heap s)
        \<and> (\<forall>t' p'. versionCache s (getCacheKey t' p') = Some a \<longrightarrow> t' = t \<and> p' = p))
     \<and> (\<forall>t p t' p' a. versionCache s (getCacheKey t p) = Some a \<longrightarrow>
        versionCache s (getCacheKey t' p') = Some a \<longrightarrow> t' = t \<and> p' = p)"

section \<open>Request validation (utils.ts)\<close>

text \<open>
  \<^verbatim>\<open>String.prototype.toLowerCase\<close> on the ASCII range. A \<open>char\<close> is a byte; a character
  outside ASCII is a run of bytes above 127, which this leaves alone. JavaScript maps
  such a character to a character outside ASCII again, except the Kelvin sign (to
  \<open>k\<close>) and the dotted capital I (to \<open>i\<close> and a combining dot), and none of the
  accepted words holds a \<open>k\<close> or an \<open>i\<close>.
\<close>

definition toLowerChar :: "char \<Rightarrow> char" where
  "toLowerChar c =
     (let n = (of_char c :: nat) in if 65 \<le> n \<and> n \<le> 90 then char_of (n + 32) else c)"

definition toLowerCase :: "string \<Rightarrow> string" where
  "toLowerCase s = map toLowerChar s"

definition parsePreviewParam :: "string \<Rightarrow> bool option" where
  "parsePreviewParam preview =
     (let lower = toLowerCase preview in
      if lower = ''true'' \<or> lower = ''1'' then Some True
      else if lower = ''false'' \<or> lower = ''0'' then Some False
      else None)"

text \<open>Equality of strings up to the case of ASCII letters, stated without
  \<open>toLowerCase\<close>: position by position the characters are equal, or one is a capital
  letter and the other is the small letter 32 code points above it.\<close>

definition sameLetter :: "char \<Rightarrow> char \<Rightarrow> bool" where
  "sameLetter x y \<longleftrightarrow>
     x = y
     \<or> (65 \<le> (of_char x :: nat) \<and> (of_char x :: nat) \<le> 90 \<and> (of_char y :: nat) = of_char x + 32)
     \<or> (65 \<le> (of_char y :: nat) \<and> (of_char y :: nat) \<le> 90 \<and> (of_char x :: nat) = of_char y + 32)"

fun equalIgnoringCase :: "string \<Rightarrow> string \<Rightarrow> bool" where
  "equalIgnoringCase [] [] = True"
| "equalIgnoringCase (x # xs) (y # ys) = (sameLetter x y \<and> equalIgnoringCase xs ys)"
| "equalIgnoringCase _ _ = False"

section \<open>Example runs\<close>

text \<open>Two answers of the page, each a download link with the version the expression
  captures from it.\<close>

definition exampleLink :: scrape where
  "exampleLink = Link ''https://www.minecraft.net/bedrockdedicatedserver/bin-win/bedrock-server-1.21.84.1.zip'' (Some ''1.21.84.1'')"

definition laterLink :: scrape where
  "laterLink = Link ''https://www.minecraft.net/bedrockdedicatedserver/bin-win/bedrock-server-1.21.84.2.zip'' (Some ''1.21.84.2'')"

text \<open>A run in which a second cache-miss fetch for the same key is still in flight
  when the entry written by the first one goes stale.\<close>

definition lateMissTrace :: "event list" where
  "lateMissTrace =
     [Lookup 0 Win False,
      Lookup 0 Win False,
      Settle 0 (AwaitLookup Win False) exampleLink,
      Lookup 21600000 Win False,
      Settle 21600000 (AwaitLookup Win False) laterLink]"

text \<open>The same run followed by a lookup at a time when the second entry is stale too.\<close>

definition raceTrace :: "event list" where
  "raceTrace = lateMissTrace @ [Lookup 43200000 Win False]"

text \<open>The state after one cache miss has been served, the state after a later lookup
  found that entry stale, and an order in which the four warm-up fetches may settle.\<close>

definition served :: state where
  "served = run [Lookup 0 Win False, Settle 1000 (AwaitLookup Win False) exampleLink] initial"

definition refreshingState :: state where
  "refreshingState =
     run [Lookup 0 Win False, Settle 1000 (AwaitLookup Win False) exampleLink,
          Lookup 21601000 Win False] initial"

definition warmupOrder :: "((bdsType \<times> bool) \<times> int \<times> scrape) list" where
  "warmupOrder =
     [((Linux, False), 3000, exampleLink),
      ((Win, True), 3500, Threw),
      ((Win, False), 4000, exampleLink),
      ((Linux, True), 9000, Link [] None)]"

section \<open>Basic facts\<close>

lemma getCacheKey_inj [simp]:
  "getCacheKey t p = getCacheKey t' p' \<longleftrightarrow> t = t' \<and> p = p'"
  by (cases t; cases t'; cases p; cases p') (simp_all add: getCacheKey_def)

lemma in_combinations [simp]: "(t, p) \<in> set combinations"
  by (cases t; cases p) (simp_all add: combinations_def)

lemma set_combinations: "set combinations = UNIV"
  by auto

lemma fetched_nonempty: "lookupLatestVersionInternal raw = Inr v \<Longrightarrow> v \<noteq> []"
  by (cases raw) (auto split: if_splits option.splits)

lemma wellFormed_iff:
  "wellFormed s \<longleftrightarrow>
     (\<forall>t p a. versionCache s (getCacheKey t p) = Some a \<longrightarrow> a < length (heap s))
     \<and> (\<forall>e \<in> set (heap s). version e \<noteq> [])"
  by (auto simp: wellFormed_def list_all_iff set_combinations split: option.splits prod.splits)

lemma wellFormed_initial: "wellFormed initial"
  by (simp add: wellFormed_iff initial_def)

lemma wellFormed_startFetch [simp]: "wellFormed (startFetch t s) = wellFormed s"
  by (simp add: wellFormed_iff startFetch_def)

lemma wellFormed_pending_update [simp]: "wellFormed (s\<lparr>pending := ps\<rparr>) = wellFormed s"
  by (simp add: wellFormed_iff)

lemma wellFormed_setCachedVersion: "wellFormed s \<Longrightarrow> v \<noteq> [] \<Longrightarrow> wellFormed (setCachedVersion now t p v s)"
  by (auto simp: wellFormed_iff setCachedVersion_def less_Suc_eq)

lemma wellFormed_flag: "wellFormed s \<Longrightarrow> wellFormed (s\<lparr>heap := (heap s)[a := (heap s ! a)\<lparr>refreshing := b\<rparr>]\<rparr>)"
proof (cases "a < length (heap s)")
  case True
  assume "wellFormed s"
  with True have "version (heap s ! a) \<noteq> []" by (simp add: wellFormed_iff)
  with \<open>wellFormed s\<close> show ?thesis
    by (auto simp: wellFormed_iff dest!: subsetD[OF set_update_subset_insert])
next
  case False
  assume "wellFormed s"
  with False show ?thesis by (simp add: wellFormed_iff list_update_beyond)
qed

lemma wellFormed_refreshCacheEntry: "wellFormed s \<Longrightarrow> wellFormed (refreshCacheEntry t p s)"
  by (auto simp: refreshCacheEntry_def wellFormed_flag split: option.splits)

lemma wellFormed_checkAndRefreshCache: "wellFormed s \<Longrightarrow> wellFormed (checkAndRefreshCache now t p s)"
  by (auto simp: checkAndRefreshCache_def wellFormed_refreshCacheEntry split: option.splits)

lemma wellFormed_lookupLatestVersion: "wellFormed s \<Longrightarrow> wellFormed (snd (lookupLatestVersion now t p s))"
  by (auto simp: lookupLatestVersion_def wellFormed_checkAndRefreshCache split: option.splits)

lemma wellFormed_resume:
  "wellFormed s \<Longrightarrow> wellFormed (snd (resume now task (lookupLatestVersionInternal raw) s))"
  by (cases task)
     (auto simp: lookupLatestVersion_resume_def refreshCacheEntry_resume_def
        initCallback_resume_def wellFormed_setCachedVersion wellFormed_flag fetched_nonempty
        split: sum.splits option.splits)

lemma wellFormed_initializeCache [simp]: "wellFormed (initializeCache s) = wellFormed s"
  by (simp add: initializeCache_def combinations_def)

lemma wellFormed_step: "wellFormed s \<Longrightarrow> wellFormed (snd (step e s))"
proof (cases e)
  case (Lookup now t p)
  assume "wellFormed s"
  from wellFormed_lookupLatestVersion[OF this, of now t p] Lookup show ?thesis
    by (auto split: prod.splits option.splits)
next
  case (Settle now t raw)
  assume "wellFormed s"
  then have "wellFormed (s\<lparr>pending := remove1 t (pending s)\<rparr>)" by simp
  from wellFormed_resume[OF this] \<open>wellFormed s\<close> Settle show ?thesis by simp
qed simp_all

text \<open>Every state the process reaches from its start is well-formed.\<close>

lemma wellFormed_run: "wellFormed s \<Longrightarrow> wellFormed (run evs s)"
  unfolding run_def by (induction evs arbitrary: s) (simp_all add: wellFormed_step)

lemma wellFormed_key:
  "wellFormed s \<Longrightarrow> versionCache s (getCacheKey t p) = Some a \<Longrightarrow>
     a < length (heap s) \<and> version (heap s ! a) \<noteq> []"
  by (auto simp: wellFormed_iff)

lemma wellFormed_cached_nonempty: "wellFormed s \<Longrightarrow> getCachedVersion t p s = Some v \<Longrightarrow> v \<noteq> []"
  by (auto simp: getCachedVersion_def split: option.splits dest: wellFormed_key)

section \<open>The example runs, evaluated\<close>

lemmas eval_defs = run_def lookupLatestVersion_def getCachedVersion_def startFetch_def
  getCacheKey_def lookupLatestVersion_resume_def setCachedVersion_def checkAndRefreshCache_def
  refreshCacheEntry_def refreshCacheEntry_resume_def isCacheValid_def CACHE_DURATION_MS_def
  initial_def exampleLink_def laterLink_def

lemma served_state:
  "served = \<lparr>versionCache = [''win-stable'' \<mapsto> 0],
             heap = [\<lparr>version = ''1.21.84.1'', timestamp = 1000, refreshing = False\<rparr>],
             pending = [], calls = 1\<rparr>"
  by (simp add: served_def eval_defs)

lemma refreshingState_state:
  "refreshingState =
     \<lparr>versionCache = [''win-stable'' \<mapsto> 0],
      heap = [\<lparr>version = ''1.21.84.1'', timestamp = 1000, refreshing = True\<rparr>],
      pending = [AwaitRefresh Win False (Some 0)], calls = 2\<rparr>"
  by (simp add: refreshingState_def eval_defs)

lemma wellFormed_served: "wellFormed served"
  unfolding served_def by (rule wellFormed_run[OF wellFormed_initial])

lemma wellFormed_refreshingState: "wellFormed refreshingState"
  unfolding refreshingState_def by (rule wellFormed_run[OF wellFormed_initial])

section \<open>Freshness of an entry\<close>

text \<open>
  C6. Whether an entry is fresh depends on its fetch time and the clock alone, not on
  its version or its refreshing flag: it is fresh exactly when
  \<open>now - timestamp < TTL\<close>, and the TTL is 21600000 milliseconds, six hours.
\<close>

theorem isCacheValid_pure_ttl:
  "isCacheValid now e = (now - timestamp e < 21600000)
   \<and> CACHE_DURATION_MS = 6 * 60 * 60 * 1000"
  by (simp add: isCacheValid_def CACHE_DURATION_MS_def)

section \<open>Lookup on a fresh entry\<close>

text \<open>
  C3. When the entry of a key is fresh (\<open>now - timestamp < TTL\<close>), a lookup of
  that key returns the stored version at once and leaves the whole state as it was:
  no task is added and the count of fetcher calls does not move, so the fetcher is
  invoked neither synchronously nor in the background.
\<close>

theorem fresh_lookup_serves_without_fetch:
  assumes "wellFormed s" and "versionCache s (getCacheKey t p) = Some a"
    and "isCacheValid now (heap s ! a)"
  shows "lookupLatestVersion now t p s = (Some (version (heap s ! a)), s)
         \<and> step (Lookup now t p) s = (Resolved (version (heap s ! a)), s)"
proof -
  from wellFormed_key[OF assms(1,2)] have ne: "version (heap s ! a) \<noteq> []" by simp
  have "checkAndRefreshCache now t p s = s"
    using assms(2,3) by (simp add: checkAndRefreshCache_def)
  with ne assms(2) have "lookupLatestVersion now t p s = (Some (version (heap s ! a)), s)"
    by (simp add: lookupLatestVersion_def getCachedVersion_def)
  then show ?thesis by simp
qed

theorem fresh_lookup_serves_without_fetch_witness:
  "lookupLatestVersion 5000 Win False served = (Some ''1.21.84.1'', served)
   \<and> step (Lookup 5000 Win False) served = (Resolved ''1.21.84.1'', served)"
proof -
  have k: "versionCache served (getCacheKey Win False) = Some 0"
    by (simp add: served_state getCacheKey_def)
  have v: "isCacheValid 5000 (heap served ! 0)"
    by (simp add: served_state isCacheValid_def CACHE_DURATION_MS_def)
  from fresh_lookup_serves_without_fetch[OF wellFormed_served k v]
  show ?thesis by (simp add: served_state)
qed

section \<open>Lookup on a missing entry\<close>

lemma getCachedVersion_setCachedVersion:
  "wellFormed s \<Longrightarrow> getCachedVersion t p (setCachedVersion now t' p' v s) =
     (if t = t' \<and> p = p' then Some v else getCachedVersion t p s)"
  by (auto simp: getCachedVersion_def setCachedVersion_def nth_append split: option.splits
      dest: wellFormed_key)

lemma statusEntry_of_cached:
  "getCachedVersion t p s = Some v \<Longrightarrow> v \<noteq> [] \<Longrightarrow>
     StatusEntry (typeName t) p True (Some v) \<in> set (entries (cacheStatus now s))"
proof -
  assume a: "getCachedVersion t p s = Some v" "v \<noteq> []"
  have "(t, p) \<in> set combinations" by simp
  then have "(\<lambda>(t, p). let cachedVersion = getCachedVersion t p s
               in StatusEntry (typeName t) p (cachedVersion \<noteq> None)
                    (case cachedVersion of None \<Rightarrow> None
                     | Some v \<Rightarrow> if v \<noteq> [] then Some v else None)) (t, p)
        \<in> set (entries (cacheStatus now s))"
    unfolding cacheStatus_def by (simp only: statusResponse.simps set_map image_eqI)
  with a show ?thesis by simp
qed

text \<open>
  C2. A lookup of a key that has no entry calls the fetcher exactly once and waits for it.
  When that fetch succeeds with \<open>v\<close>, the lookup resolves with \<open>v\<close>, makes no
  further fetcher call, and from then on \<open>getCachedVersion\<close> gives \<open>v\<close> and the
  status lists the key as cached with version \<open>v\<close>. When the fetch fails, the lookup
  is rejected with the fetcher's error and the state is left as it was: no entry is
  created. (\<open>s'\<close> is the state at the time the fetch settles.)
\<close>

theorem miss_lookup_fetches_once_then_caches:
  assumes "wellFormed s" and "getCachedVersion t p s = None" and "wellFormed s'"
  shows "lookupLatestVersion now t p s
           = (None, s\<lparr>pending := pending s @ [AwaitLookup t p], calls := Suc (calls s)\<rparr>)
       \<and> (case lookupLatestVersionInternal raw of
            Inr v \<Rightarrow>
              fst (lookupLatestVersion_resume now' t p (Inr v) s') = Inr v
              \<and> getCachedVersion t p (snd (lookupLatestVersion_resume now' t p (Inr v) s')) = Some v
              \<and> StatusEntry (typeName t) p True (Some v)
                   \<in> set (entries (cacheStatus now'' (snd (lookupLatestVersion_resume now' t p (Inr v) s'))))
              \<and> calls (snd (lookupLatestVersion_resume now' t p (Inr v) s')) = calls s'
          | Inl e \<Rightarrow> lookupLatestVersion_resume now' t p (Inl e) s' = (Inl e, s'))"
proof -
  have start: "lookupLatestVersion now t p s
           = (None, s\<lparr>pending := pending s @ [AwaitLookup t p], calls := Suc (calls s)\<rparr>)"
    using assms(2) by (simp add: lookupLatestVersion_def startFetch_def)
  have fail: "lookupLatestVersion_resume now' t p (Inl e) s' = (Inl e, s')" for e
    by (simp add: lookupLatestVersion_resume_def)
  have ok: "fst (lookupLatestVersion_resume now' t p (Inr v) s') = Inr v
      \<and> getCachedVersion t p (snd (lookupLatestVersion_resume now' t p (Inr v) s')) = Some v
      \<and> StatusEntry (typeName t) p True (Some v)
           \<in> set (entries (cacheStatus now'' (snd (lookupLatestVersion_resume now' t p (Inr v) s'))))
      \<and> calls (snd (lookupLatestVersion_resume now' t p (Inr v) s')) = calls s'"
    if "lookupLatestVersionInternal raw = Inr v" for v
  proof -
    from that have ne: "v \<noteq> []" by (rule fetched_nonempty)
    have g: "getCachedVersion t p (setCachedVersion now' t p v s') = Some v"
      using assms(3) by (simp add: getCachedVersion_setCachedVersion)
    from statusEntry_of_cached[OF g ne] g show ?thesis
      by (simp add: lookupLatestVersion_resume_def setCachedVersion_def)
  qed
  show ?thesis using start fail ok by (simp split: sum.splits)
qed

theorem miss_lookup_fetches_once_then_caches_witness:
  "lookupLatestVersion 0 Win False initial
     = (None, initial\<lparr>pending := [AwaitLookup Win False], calls := 1\<rparr>)
   \<and> fst (lookupLatestVersion_resume 1000 Win False (Inr ''1.21.84.1'')
            (snd (lookupLatestVersion 0 Win False initial))) = Inr ''1.21.84.1''
   \<and> getCachedVersion Win False
        (snd (lookupLatestVersion_resume 1000 Win False (Inr ''1.21.84.1'')
            (snd (lookupLatestVersion 0 Win False initial)))) = Some ''1.21.84.1''
   \<and> StatusEntry ''win'' False True (Some ''1.21.84.1'')
        \<in> set (entries (cacheStatus 2000
            (snd (lookupLatestVersion_resume 1000 Win False (Inr ''1.21.84.1'')
               (snd (lookupLatestVersion 0 Win False initial))))))"
proof -
  have g: "getCachedVersion Win False initial = None"
    by (simp add: getCachedVersion_def initial_def)
  have w: "wellFormed (snd (lookupLatestVersion 0 Win False initial))"
    by (rule wellFormed_lookupLatestVersion[OF wellFormed_initial])
  from miss_lookup_fetches_once_then_caches[OF wellFormed_initial g w,
      where now = 0 and raw = exampleLink and now' = 1000 and now'' = 2000]
  show ?thesis by (simp add: eval_defs cacheStatus_def combinations_def)
qed

section \<open>Which failures reach a caller\<close>

lemma pending_refreshCacheEntry:
  "count_list (pending (refreshCacheEntry t p s)) (AwaitLookup t' p') = count_list (pending s) (AwaitLookup t' p')"
  by (simp add: refreshCacheEntry_def startFetch_def split: option.splits)

lemma pending_checkAndRefreshCache:
  "count_list (pending (checkAndRefreshCache now t p s)) (AwaitLookup t' p')
     = count_list (pending s) (AwaitLookup t' p')"
  by (simp add: checkAndRefreshCache_def pending_refreshCacheEntry split: option.splits)

lemma pending_resume: "pending (snd (resume now task r s)) = pending s"
  by (cases task)
     (simp_all add: lookupLatestVersion_resume_def refreshCacheEntry_resume_def
        initCallback_resume_def setCachedVersion_def split: sum.splits option.splits)

lemma count_list_remove1_le: "count_list (remove1 x xs) y \<le> count_list xs y"
  by (induction xs) auto

lemma count_initializeCache:
  "count_list (pending (initializeCache s)) (AwaitLookup t p) = count_list (pending s) (AwaitLookup t p)"
  by (simp add: initializeCache_def combinations_def startFetch_def)

lemma rejected_only_from_lookup:
  "fst (step e s) = Rejected err \<Longrightarrow>
     \<exists>now t p raw. e = Settle now (AwaitLookup t p) raw \<and> AwaitLookup t p \<in> set (pending s)
        \<and> lookupLatestVersionInternal raw = Inl err"
proof (cases e)
  case (Settle now task raw)
  assume r: "fst (step e s) = Rejected err"
  with Settle have mem: "task \<in> set (pending s)" by (auto split: if_splits)
  with r Settle show ?thesis
    by (cases task) (auto simp: lookupLatestVersion_resume_def split: sum.splits)
qed (auto split: prod.splits option.splits)

lemma lookup_task_only_from_miss:
  assumes "count_list (pending s) (AwaitLookup t p)
            < count_list (pending (snd (step e s))) (AwaitLookup t p)"
  shows "(\<exists>now. e = Lookup now t p) \<and> (getCachedVersion t p s = None \<or> getCachedVersion t p s = Some [])"
proof (cases e)
  case (Lookup now t' p')
  show ?thesis
  proof (cases "getCachedVersion t' p' s")
    case None
    with assms Lookup show ?thesis
      by (auto simp: lookupLatestVersion_def startFetch_def split: if_splits)
  next
    case (Some v)
    with assms Lookup show ?thesis
      by (auto simp: lookupLatestVersion_def startFetch_def pending_checkAndRefreshCache
          split: if_splits)
  qed
next
  case (Settle now task raw)
  have "count_list (remove1 task (pending s)) (AwaitLookup t p) \<le> count_list (pending s) (AwaitLookup t p)"
    by (rule count_list_remove1_le)
  with assms Settle show ?thesis by (auto simp: pending_resume split: if_splits)
next
  case Startup
  with assms show ?thesis by (simp add: count_initializeCache)
next
  case (Status now)
  with assms show ?thesis by simp
qed

text \<open>
  C1. A lookup of a key that has a cached value returns that value at once. A step
  of the process rejects a caller only when it is the settling, with a failure, of the
  fetch that a waiting cache-miss lookup started; and a lookup comes to wait for a fetch
  only when it found no cached value for its key. The settling of a background refresh
  never hands anything to a caller, whether the fetch succeeded or failed.
\<close>

theorem lookup_rejects_only_on_failed_miss:
  assumes "wellFormed s"
  shows "(\<forall>v. getCachedVersion t p s = Some v \<longrightarrow>
            fst (lookupLatestVersion now t p s) = Some v
            \<and> fst (step (Lookup now t p) s) = Resolved v)
       \<and> (\<forall>e err. fst (step e s) = Rejected err \<longrightarrow>
            (\<exists>now' t' p' raw. e = Settle now' (AwaitLookup t' p') raw
               \<and> AwaitLookup t' p' \<in> set (pending s)
               \<and> lookupLatestVersionInternal raw = Inl err))
       \<and> (\<forall>e. count_list (pending s) (AwaitLookup t p)
                 < count_list (pending (snd (step e s))) (AwaitLookup t p) \<longrightarrow>
            (\<exists>now'. e = Lookup now' t p) \<and> getCachedVersion t p s = None)
       \<and> (\<forall>now' entry raw.
            fst (step (Settle now' (AwaitRefresh t p entry) raw) s) = NoReply)"
proof -
  have hit: "fst (lookupLatestVersion now t p s) = Some v
            \<and> fst (step (Lookup now t p) s) = Resolved v"
    if "getCachedVersion t p s = Some v" for v
  proof -
    from wellFormed_cached_nonempty[OF assms that] that
    have "fst (lookupLatestVersion now t p s) = Some v"
      by (simp add: lookupLatestVersion_def)
    then show ?thesis by (cases "lookupLatestVersion now t p s") simp
  qed
  have miss: "(\<exists>now'. e = Lookup now' t p) \<and> getCachedVersion t p s = None"
    if "count_list (pending s) (AwaitLookup t p)
                 < count_list (pending (snd (step e s))) (AwaitLookup t p)" for e
    using lookup_task_only_from_miss[OF that] wellFormed_cached_nonempty[OF assms, of t p "[]"]
    by auto
  show ?thesis using hit miss rejected_only_from_lookup by simp
qed

theorem lookup_rejects_only_on_failed_miss_witness:
  "fst (lookupLatestVersion 5000 Win False served) = Some ''1.21.84.1''
   \<and> fst (step (Lookup 5000 Win False) served) = Resolved ''1.21.84.1''
   \<and> fst (step (Settle 1000 (AwaitRefresh Win False (Some 0)) Threw) served) = NoReply"
proof -
  have g: "getCachedVersion Win False served = Some ''1.21.84.1''"
    by (simp add: served_state getCachedVersion_def getCacheKey_def)
  from lookup_rejects_only_on_failed_miss[OF wellFormed_served, of Win False 5000] g
  show ?thesis by simp
qed

section \<open>The life of a cache entry\<close>

lemma getCachedVersion_cached: "getCachedVersion t p s = map_option fst (cached t p s)"
  by (simp add: getCachedVersion_def cached_def split: option.splits)

lemma entries_cached:
  "(\<And>t p. getCachedVersion t p s' = getCachedVersion t p s) \<Longrightarrow>
     entries (cacheStatus now s') = entries (cacheStatus now' s)"
  by (simp add: cacheStatus_def)

lemma nth_flag_update:
  "version ((xs[a := (xs ! a)\<lparr>refreshing := b\<rparr>]) ! j) = version (xs ! j)
   \<and> timestamp ((xs[a := (xs ! a)\<lparr>refreshing := b\<rparr>]) ! j) = timestamp (xs ! j)"
  by (cases "a < length xs") (simp_all add: nth_list_update list_update_beyond)

lemma cached_startFetch [simp]: "cached t p (startFetch task s) = cached t p s"
  by (simp add: cached_def startFetch_def)

lemma cached_pending_update [simp]: "cached t p (s\<lparr>pending := ps\<rparr>) = cached t p s"
  by (simp add: cached_def)

lemma cached_flag [simp]:
  "cached t p (s\<lparr>heap := (heap s)[a := (heap s ! a)\<lparr>refreshing := b\<rparr>]\<rparr>) = cached t p s"
  by (simp add: cached_def nth_flag_update)

lemma cached_setCachedVersion:
  "wellFormed s \<Longrightarrow> cached t p (setCachedVersion now t' p' v s) =
     (if t = t' \<and> p = p' then Some (v, now) else cached t p s)"
proof (cases "versionCache s (getCacheKey t p)")
  case None
  then show ?thesis by (auto simp: cached_def setCachedVersion_def)
next
  case (Some a)
  assume "wellFormed s"
  from wellFormed_key[OF this Some] have "a < length (heap s)" by simp
  with Some show ?thesis by (auto simp: cached_def setCachedVersion_def nth_append)
qed

lemma cached_refreshCacheEntry [simp]: "cached t p (refreshCacheEntry t' p' s) = cached t p s"
  by (simp add: refreshCacheEntry_def split: option.splits)

lemma cached_checkAndRefreshCache [simp]:
  "cached t p (checkAndRefreshCache now t' p' s) = cached t p s"
  by (simp add: checkAndRefreshCache_def split: option.splits)

lemma cached_lookupLatestVersion [simp]:
  "cached t p (snd (lookupLatestVersion now t' p' s)) = cached t p s"
  by (simp add: lookupLatestVersion_def split: option.splits)

lemma cached_initializeCache [simp]: "cached t p (initializeCache s) = cached t p s"
  by (simp add: initializeCache_def combinations_def)

lemma cached_resume:
  "wellFormed s \<Longrightarrow> cached t p (snd (resume now task r s)) =
     (case r of Inr v \<Rightarrow> if taskKey task = (t, p) then Some (v, now) else cached t p s
              | Inl e \<Rightarrow> cached t p s)"
proof (cases r)
  case (Inl e)
  then show ?thesis
    by (cases task)
       (simp_all add: lookupLatestVersion_resume_def refreshCacheEntry_resume_def
          initCallback_resume_def split: option.splits)
next
  case (Inr v)
  assume "wellFormed s"
  from cached_setCachedVersion[OF this] Inr show ?thesis
    by (cases task)
       (simp_all add: lookupLatestVersion_resume_def refreshCacheEntry_resume_def
          initCallback_resume_def)
qed

text \<open>
  C9. Every step of the process either leaves the version and the fetch time cached for
  a key as they were, or is the settling of a successful fetch for that very key (of a
  cache-miss lookup, a background refresh or the warm-up), which sets them to the
  fetched version and the current time. So an entry appears only through a successful
  fetch, is rewritten only by one, and once present is never removed.
\<close>

theorem entry_written_only_by_successful_fetch:
  assumes "wellFormed s"
  shows "(cached t p (snd (step e s)) = cached t p s
          \<or> (\<exists>now task raw v. e = Settle now task raw \<and> task \<in> set (pending s)
                \<and> taskKey task = (t, p) \<and> lookupLatestVersionInternal raw = Inr v
                \<and> cached t p (snd (step e s)) = Some (v, now)))
       \<and> (cached t p s \<noteq> None \<longrightarrow> cached t p (snd (step e s)) \<noteq> None)"
proof -
  have change: "cached t p (snd (step e s)) = cached t p s
          \<or> (\<exists>now task raw v. e = Settle now task raw \<and> task \<in> set (pending s)
                \<and> taskKey task = (t, p) \<and> lookupLatestVersionInternal raw = Inr v
                \<and> cached t p (snd (step e s)) = Some (v, now))"
  proof (cases e)
    case (Lookup now t' p')
    then show ?thesis
      using cached_lookupLatestVersion[of t p now t' p' s]
      by (cases "lookupLatestVersion now t' p' s") (auto split: option.splits)
  next
    case (Settle now task raw)
    from assms have w: "wellFormed (s\<lparr>pending := remove1 task (pending s)\<rparr>)" by simp
    show ?thesis
      using Settle cached_resume[OF w, of t p now task "lookupLatestVersionInternal raw"]
      by (auto split: sum.splits if_splits)
  qed simp_all
  then have "cached t p s \<noteq> None \<longrightarrow> cached t p (snd (step e s)) \<noteq> None"
    by auto
  with change show ?thesis by (rule conjI)
qed

theorem entry_written_only_by_successful_fetch_witness:
  "cached Win False (snd (step (Settle 21609000 (AwaitRefresh Win False (Some 0)) laterLink)
      refreshingState)) = Some (''1.21.84.2'', 21609000)
   \<and> cached Win False (snd (step (Settle 21609000 (AwaitRefresh Win False (Some 0)) Threw)
      refreshingState)) = Some (''1.21.84.1'', 1000)"
proof -
  have c: "cached Win False refreshingState = Some (''1.21.84.1'', 1000)"
    by (simp add: refreshingState_state cached_def getCacheKey_def)
  from entry_written_only_by_successful_fetch[OF wellFormed_refreshingState, of Win False
      "Settle 21609000 (AwaitRefresh Win False (Some 0)) laterLink"]
    entry_written_only_by_successful_fetch[OF wellFormed_refreshingState, of Win False
      "Settle 21609000 (AwaitRefresh Win False (Some 0)) Threw"] c
  show ?thesis by (simp add: refreshingState_state eval_defs cached_def)
qed

section \<open>A failed background refresh\<close>

text \<open>
  What the \<^verbatim>\<open>catch\<close> block of \<open>refreshCacheEntry\<close> does in every well-formed
  state: nothing is handed to a caller, no fetcher call is made, and the version and
  fetch time cached for every key stay as they were. If the refresh holds the entry the
  cache has for its key (the object it marked), that entry's refreshing flag is false
  again, and the next lookup that finds the entry stale starts exactly one new fetch.
\<close>

lemma failed_refresh_keeps_cached_data:
  assumes "wellFormed s" and "AwaitRefresh t p entry \<in> set (pending s)"
    and "lookupLatestVersionInternal raw = Inl err"
  shows "fst (step (Settle now (AwaitRefresh t p entry) raw) s) = NoReply
       \<and> (let s' = snd (step (Settle now (AwaitRefresh t p entry) raw) s) in
            versionCache s' = versionCache s
            \<and> calls s' = calls s
            \<and> (\<forall>t' p'. cached t' p' s' = cached t' p' s)
            \<and> (\<forall>t' p'. getCachedVersion t' p' s' = getCachedVersion t' p' s)
            \<and> (\<forall>n. entries (cacheStatus n s') = entries (cacheStatus n s))
            \<and> (\<forall>a. entry = Some a \<and> versionCache s (getCacheKey t p) = Some a \<longrightarrow>
                  refreshing (heap s' ! a) = False
                  \<and> (\<forall>now'. \<not> isCacheValid now' (heap s' ! a) \<longrightarrow>
                        fst (lookupLatestVersion now' t p s') = Some (version (heap s ! a))
                        \<and> calls (snd (lookupLatestVersion now' t p s')) = Suc (calls s')
                        \<and> pending (snd (lookupLatestVersion now' t p s'))
                             = pending s' @ [AwaitRefresh t p (Some a)])))"
proof -
  let ?task = "AwaitRefresh t p entry"
  let ?s' = "snd (step (Settle now ?task raw) s)"
  have st: "step (Settle now ?task raw) s =
      (NoReply, refreshCacheEntry_resume now t p entry (Inl err)
                  (s\<lparr>pending := remove1 ?task (pending s)\<rparr>))"
    using assms(2,3) by simp
  have vc: "versionCache ?s' = versionCache s" and ca: "calls ?s' = calls s"
    unfolding st by (simp_all add: refreshCacheEntry_resume_def split: option.splits)
  have c: "cached t' p' ?s' = cached t' p' s" for t' p'
    unfolding st
    by (simp add: refreshCacheEntry_resume_def cached_def nth_flag_update split: option.splits)
  then have g: "getCachedVersion t' p' ?s' = getCachedVersion t' p' s" for t' p'
    by (simp add: getCachedVersion_cached)
  then have e: "entries (cacheStatus n ?s') = entries (cacheStatus n s)" for n
    by (rule entries_cached)
  have own: "refreshing (heap ?s' ! a) = False
         \<and> (\<forall>now'. \<not> isCacheValid now' (heap ?s' ! a) \<longrightarrow>
               fst (lookupLatestVersion now' t p ?s') = Some (version (heap s ! a))
               \<and> calls (snd (lookupLatestVersion now' t p ?s')) = Suc (calls ?s')
               \<and> pending (snd (lookupLatestVersion now' t p ?s'))
                    = pending ?s' @ [AwaitRefresh t p (Some a)])"
    if "entry = Some a" and k: "versionCache s (getCacheKey t p) = Some a" for a
  proof -
    from wellFormed_key[OF assms(1) k]
    have a: "a < length (heap s)" and ne: "version (heap s ! a) \<noteq> []" by simp_all
    have f: "refreshing (heap ?s' ! a) = False"
      unfolding st using a that(1) by (simp add: refreshCacheEntry_resume_def)
    have k': "versionCache ?s' (getCacheKey t p) = Some a" using vc k by simp
    from g[of t p] k k' have v: "version (heap ?s' ! a) = version (heap s ! a)"
      by (simp add: getCachedVersion_def)
    show ?thesis
      using f k' v ne
      by (simp add: lookupLatestVersion_def getCachedVersion_def checkAndRefreshCache_def
          refreshCacheEntry_def startFetch_def)
  qed
  have r: "fst (step (Settle now ?task raw) s) = NoReply" unfolding st by simp
  show ?thesis unfolding Let_def using r vc ca c g e own by blast
qed

lemma failed_refresh_keeps_cached_data_example:
  "step (Settle 21609000 (AwaitRefresh Win False (Some 0)) Threw) refreshingState
     = (NoReply, served\<lparr>calls := 2\<rparr>)
   \<and> getCachedVersion Win False (served\<lparr>calls := 2\<rparr>) = Some ''1.21.84.1''
   \<and> refreshing (heap (served\<lparr>calls := 2\<rparr>) ! 0) = False
   \<and> calls (snd (lookupLatestVersion 21610000 Win False (served\<lparr>calls := 2\<rparr>))) = 3"
proof -
  have p: "AwaitRefresh Win False (Some 0) \<in> set (pending refreshingState)"
    by (simp add: refreshingState_state)
  have f: "lookupLatestVersionInternal Threw = Inl ScrapeFailed" by simp
  have st: "step (Settle 21609000 (AwaitRefresh Win False (Some 0)) Threw) refreshingState
     = (NoReply, served\<lparr>calls := 2\<rparr>)"
    by (simp add: refreshingState_state served_state refreshCacheEntry_resume_def)
  from failed_refresh_keeps_cached_data[OF wellFormed_refreshingState p f, of 21609000]
  show ?thesis using st by (simp add: served_state eval_defs)
qed

section \<open>Single flight\<close>

text \<open>The guard is an invariant of the process: it holds at the start and every step
  keeps it. In every state the process reaches, the entry currently cached for a key is
  held by at most one refresh in flight, and by one exactly when it is marked.\<close>

lemma guardedI:
  assumes "\<And>t p a. versionCache s (getCacheKey t p) = Some a \<Longrightarrow>
        a < length (heap s)
        \<and> count_list (pending s) (AwaitRefresh t p (Some a))
            = (if refreshing (heap s ! a) then 1 else 0)"
    and "\<And>t p a. AwaitRefresh t p (Some a) \<in> set (pending s) \<Longrightarrow>
        a < length (heap s)
        \<and> (\<forall>t' p'. versionCache s (getCacheKey t' p') = Some a \<longrightarrow> t' = t \<and> p' = p)"
    and "\<And>t p t' p' a. versionCache s (getCacheKey t p) = Some a \<Longrightarrow>
        versionCache s (getCacheKey t' p') = Some a \<Longrightarrow> t' = t \<and> p' = p"
  shows "guarded s"
  unfolding guarded_def using assms by blast

lemma guarded_current:
  "guarded s \<Longrightarrow> versionCache s (getCacheKey t p) = Some a \<Longrightarrow>
     a < length (heap s)
     \<and> count_list (pending s) (AwaitRefresh t p (Some a))
         = (if refreshing (heap s ! a) then 1 else 0)"
  unfolding guarded_def by blast

lemma guarded_captured:
  "guarded s \<Longrightarrow> AwaitRefresh t p (Some a) \<in> set (pending s) \<Longrightarrow>
     a < length (heap s)
     \<and> (\<forall>t' p'. versionCache s (getCacheKey t' p') = Some a \<longrightarrow> t' = t \<and> p' = p)"
  unfolding guarded_def by blast

lemma guarded_keys:
  "guarded s \<Longrightarrow> versionCache s (getCacheKey t p) = Some a \<Longrightarrow>
     versionCache s (getCacheKey t' p') = Some a \<Longrightarrow> t' = t \<and> p' = p"
  unfolding guarded_def by blast

lemma in_remove1D: "x \<in> set (remove1 y xs) \<Longrightarrow> x \<in> set xs"
  using set_remove1_subset[of y xs] by blast

lemma count_remove1_other: "x \<noteq> y \<Longrightarrow> count_list (remove1 x xs) y = count_list xs y"
  by (induction xs) auto

lemma count_remove1_same:
  "x \<in> set xs \<Longrightarrow> count_list (remove1 x xs) x = count_list xs x - 1"
  by (induction xs) auto

lemma count_zero: "x \<notin> set xs \<Longrightarrow> count_list xs x = 0"
  by (induction xs) auto

lemma count_pos: "x \<in> set xs \<Longrightarrow> 0 < count_list xs x"
  by (induction xs) auto

lemma guarded_initial: "guarded initial"
  by (simp add: guarded_def initial_def)

lemma guarded_startFetch_plain:
  assumes "guarded s" and plain: "\<And>t p a. task \<noteq> AwaitRefresh t p (Some a)"
  shows "guarded (startFetch task s)"
proof (rule guardedI)
  fix t p a
  assume "versionCache (startFetch task s) (getCacheKey t p) = Some a"
  then have "versionCache s (getCacheKey t p) = Some a" by (simp add: startFetch_def)
  from guarded_current[OF assms(1) this] plain[of t p a]
  show "a < length (heap (startFetch task s))
        \<and> count_list (pending (startFetch task s)) (AwaitRefresh t p (Some a))
            = (if refreshing (heap (startFetch task s) ! a) then 1 else 0)"
    by (simp add: startFetch_def)
next
  fix t p a
  assume "AwaitRefresh t p (Some a) \<in> set (pending (startFetch task s))"
  with plain[of t p a] have "AwaitRefresh t p (Some a) \<in> set (pending s)"
    by (auto simp: startFetch_def)
  from guarded_captured[OF assms(1) this]
  show "a < length (heap (startFetch task s))
        \<and> (\<forall>t' p'. versionCache (startFetch task s) (getCacheKey t' p') = Some a
              \<longrightarrow> t' = t \<and> p' = p)"
    by (simp add: startFetch_def)
next
  fix t p t' p' a
  assume "versionCache (startFetch task s) (getCacheKey t p) = Some a"
    and "versionCache (startFetch task s) (getCacheKey t' p') = Some a"
  then show "t' = t \<and> p' = p"
    using guarded_keys[OF assms(1), of t p a t' p'] by (simp add: startFetch_def)
qed

lemma guarded_remove_plain:
  assumes "guarded s" and plain: "\<And>t p a. task \<noteq> AwaitRefresh t p (Some a)"
  shows "guarded (s\<lparr>pending := remove1 task (pending s)\<rparr>)"
proof (rule guardedI)
  fix t p a
  assume "versionCache (s\<lparr>pending := remove1 task (pending s)\<rparr>) (getCacheKey t p) = Some a"
  then have "versionCache s (getCacheKey t p) = Some a" by simp
  from guarded_current[OF assms(1) this] count_remove1_other[OF plain[of t p a], of "pending s"]
  show "a < length (heap (s\<lparr>pending := remove1 task (pending s)\<rparr>))
        \<and> count_list (pending (s\<lparr>pending := remove1 task (pending s)\<rparr>))
             (AwaitRefresh t p (Some a))
            = (if refreshing (heap (s\<lparr>pending := remove1 task (pending s)\<rparr>) ! a)
               then 1 else 0)"
    by (simp del: count_list_remove1)
next
  fix t p a
  assume "AwaitRefresh t p (Some a) \<in> set (pending (s\<lparr>pending := remove1 task (pending s)\<rparr>))"
  then have "AwaitRefresh t p (Some a) \<in> set (pending s)"
    using in_remove1D[of _ task "pending s"] by simp
  from guarded_captured[OF assms(1) this]
  show "a < length (heap (s\<lparr>pending := remove1 task (pending s)\<rparr>))
        \<and> (\<forall>t' p'. versionCache (s\<lparr>pending := remove1 task (pending s)\<rparr>)
               (getCacheKey t' p') = Some a \<longrightarrow> t' = t \<and> p' = p)"
    by simp
next
  fix t p t' p' a
  assume "versionCache (s\<lparr>pending := remove1 task (pending s)\<rparr>) (getCacheKey t p) = Some a"
    and "versionCache (s\<lparr>pending := remove1 task (pending s)\<rparr>) (getCacheKey t' p') = Some a"
  then show "t' = t \<and> p' = p"
    using guarded_keys[OF assms(1), of t p a t' p'] by simp
qed


lemma guarded_store:
  assumes "guarded s" and key: "taskKey task = (t0, p0)"
  shows "guarded (setCachedVersion now t0 p0 v (s\<lparr>pending := remove1 task (pending s)\<rparr>))"
    (is "guarded ?s'")
proof (rule guardedI)
  have heap': "heap ?s' = heap s @ [\<lparr>version = v, timestamp = now, refreshing = False\<rparr>]"
    and pend': "pending ?s' = remove1 task (pending s)"
    and vc': "versionCache ?s' = (versionCache s)(getCacheKey t0 p0 \<mapsto> length (heap s))"
    by (simp_all add: setCachedVersion_def)
  {
    fix t p a
    assume k: "versionCache ?s' (getCacheKey t p) = Some a"
    show "a < length (heap ?s')
          \<and> count_list (pending ?s') (AwaitRefresh t p (Some a))
              = (if refreshing (heap ?s' ! a) then 1 else 0)"
    proof (cases "t = t0 \<and> p = p0")
      case True
      with k have a: "a = length (heap s)" by (simp add: vc')
      have "AwaitRefresh t p (Some a) \<notin> set (pending s)"
        using guarded_captured[OF assms(1), of t p a] a by auto
      then have "AwaitRefresh t p (Some a) \<notin> set (remove1 task (pending s))"
        using in_remove1D[of _ task "pending s"] by blast
      then have "count_list (remove1 task (pending s)) (AwaitRefresh t p (Some a)) = 0"
        by (rule count_zero)
      with a show ?thesis unfolding heap' pend' by simp
    next
      case False
      with k have k0: "versionCache s (getCacheKey t p) = Some a" by (auto simp: vc')
      from False key have "task \<noteq> AwaitRefresh t p (Some a)" by auto
      from count_remove1_other[OF this, of "pending s"] guarded_current[OF assms(1) k0]
      show ?thesis unfolding heap' pend' by (simp add: nth_append del: count_list_remove1)
    qed
  next
    fix t p a
    assume "AwaitRefresh t p (Some a) \<in> set (pending ?s')"
    then have "AwaitRefresh t p (Some a) \<in> set (pending s)"
      unfolding pend' by (rule in_remove1D)
    from guarded_captured[OF assms(1) this]
    show "a < length (heap ?s')
          \<and> (\<forall>t' p'. versionCache ?s' (getCacheKey t' p') = Some a \<longrightarrow> t' = t \<and> p' = p)"
      unfolding heap' vc' by auto
  next
    fix t p t' p' a
    assume "versionCache ?s' (getCacheKey t p) = Some a"
      and "versionCache ?s' (getCacheKey t' p') = Some a"
    then show "t' = t \<and> p' = p"
      unfolding vc'
      using guarded_keys[OF assms(1), of t p a t' p']
        guarded_current[OF assms(1), of t p "length (heap s)"]
        guarded_current[OF assms(1), of t' p' "length (heap s)"]
      by (auto split: if_splits)
  }
qed


lemma guarded_clear:
  assumes "guarded s" and mem: "AwaitRefresh t0 p0 (Some b) \<in> set (pending s)"
  shows "guarded (s\<lparr>pending := remove1 (AwaitRefresh t0 p0 (Some b)) (pending s),
                    heap := (heap s)[b := (heap s ! b)\<lparr>refreshing := False\<rparr>]\<rparr>)"
    (is "guarded ?s'")
proof (rule guardedI)
  have heap': "heap ?s' = (heap s)[b := (heap s ! b)\<lparr>refreshing := False\<rparr>]"
    and pend': "pending ?s' = remove1 (AwaitRefresh t0 p0 (Some b)) (pending s)"
    and vc': "versionCache ?s' = versionCache s"
    by simp_all
  from guarded_captured[OF assms(1) mem] have b: "b < length (heap s)"
    and own: "\<And>t' p'. versionCache s (getCacheKey t' p') = Some b \<Longrightarrow> t' = t0 \<and> p' = p0"
    by auto
  {
    fix t p a
    assume "versionCache ?s' (getCacheKey t p) = Some a"
    then have k0: "versionCache s (getCacheKey t p) = Some a" by simp
    show "a < length (heap ?s')
          \<and> count_list (pending ?s') (AwaitRefresh t p (Some a))
              = (if refreshing (heap ?s' ! a) then 1 else 0)"
    proof (cases "a = b")
      case True
      with own[of t p] k0 have tp: "t = t0" "p = p0" by auto
      from count_pos[OF mem] guarded_current[OF assms(1) k0] True tp
      have "count_list (pending s) (AwaitRefresh t0 p0 (Some b)) = 1"
        by (auto split: if_splits)
      with count_remove1_same[OF mem] True tp b show ?thesis
        unfolding heap' pend' by (simp del: count_list_remove1)
    next
      case False
      then have "AwaitRefresh t0 p0 (Some b) \<noteq> AwaitRefresh t p (Some a)" by auto
      from count_remove1_other[OF this, of "pending s"] guarded_current[OF assms(1) k0] False
      show ?thesis unfolding heap' pend' by (simp del: count_list_remove1)
    qed
  next
    fix t p a
    assume "AwaitRefresh t p (Some a) \<in> set (pending ?s')"
    then have "AwaitRefresh t p (Some a) \<in> set (pending s)"
      unfolding pend' by (rule in_remove1D)
    from guarded_captured[OF assms(1) this]
    show "a < length (heap ?s')
          \<and> (\<forall>t' p'. versionCache ?s' (getCacheKey t' p') = Some a \<longrightarrow> t' = t \<and> p' = p)"
      unfolding heap' vc' by simp
  next
    fix t p t' p' a
    assume "versionCache ?s' (getCacheKey t p) = Some a"
      and "versionCache ?s' (getCacheKey t' p') = Some a"
    then show "t' = t \<and> p' = p"
      unfolding vc' by (rule guarded_keys[OF assms(1)])
  }
qed

lemma guarded_mark:
  assumes "guarded s" and k: "versionCache s (getCacheKey t0 p0) = Some b"
    and nf: "\<not> refreshing (heap s ! b)"
  shows "guarded (startFetch (AwaitRefresh t0 p0 (Some b))
                    (s\<lparr>heap := (heap s)[b := (heap s ! b)\<lparr>refreshing := True\<rparr>]\<rparr>))"
    (is "guarded ?s'")
proof (rule guardedI)
  have heap': "heap ?s' = (heap s)[b := (heap s ! b)\<lparr>refreshing := True\<rparr>]"
    and pend': "pending ?s' = pending s @ [AwaitRefresh t0 p0 (Some b)]"
    and vc': "versionCache ?s' = versionCache s"
    by (simp_all add: startFetch_def)
  from guarded_current[OF assms(1) k] nf have b: "b < length (heap s)"
    and none: "count_list (pending s) (AwaitRefresh t0 p0 (Some b)) = 0"
    by simp_all
  {
    fix t p a
    assume "versionCache ?s' (getCacheKey t p) = Some a"
    then have k0: "versionCache s (getCacheKey t p) = Some a" by (simp add: vc')
    show "a < length (heap ?s')
          \<and> count_list (pending ?s') (AwaitRefresh t p (Some a))
              = (if refreshing (heap ?s' ! a) then 1 else 0)"
    proof (cases "a = b")
      case True
      with guarded_keys[OF assms(1) k, of t p] k0 have tp: "t = t0" "p = p0" by auto
      from none True tp b show ?thesis unfolding heap' pend' by simp
    next
      case False
      with guarded_current[OF assms(1) k0] show ?thesis unfolding heap' pend' by simp
    qed
  next
    fix t p a
    assume m: "AwaitRefresh t p (Some a) \<in> set (pending ?s')"
    show "a < length (heap ?s')
          \<and> (\<forall>t' p'. versionCache ?s' (getCacheKey t' p') = Some a \<longrightarrow> t' = t \<and> p' = p)"
    proof (cases "AwaitRefresh t p (Some a) = AwaitRefresh t0 p0 (Some b)")
      case True
      with b guarded_keys[OF assms(1) k] show ?thesis unfolding heap' vc' by auto
    next
      case False
      with m have "AwaitRefresh t p (Some a) \<in> set (pending s)" unfolding pend' by auto
      from guarded_captured[OF assms(1) this] show ?thesis unfolding heap' vc' by simp
    qed
  next
    fix t p t' p' a
    assume "versionCache ?s' (getCacheKey t p) = Some a"
      and "versionCache ?s' (getCacheKey t' p') = Some a"
    then show "t' = t \<and> p' = p"
      unfolding vc' by (rule guarded_keys[OF assms(1)])
  }
qed

lemma guarded_refreshCacheEntry: "guarded s \<Longrightarrow> guarded (refreshCacheEntry t p s)"
  by (auto simp: refreshCacheEntry_def guarded_mark guarded_startFetch_plain split: option.splits)

lemma guarded_lookupLatestVersion: "guarded s \<Longrightarrow> guarded (snd (lookupLatestVersion now t p s))"
  by (auto simp: lookupLatestVersion_def checkAndRefreshCache_def guarded_refreshCacheEntry
      guarded_startFetch_plain split: option.splits)

lemma guarded_initializeCache: "guarded s \<Longrightarrow> guarded (initializeCache s)"
  by (simp add: initializeCache_def combinations_def guarded_startFetch_plain)

lemma guarded_settle:
  assumes "guarded s" and "task \<in> set (pending s)"
  shows "guarded (snd (resume now task r (s\<lparr>pending := remove1 task (pending s)\<rparr>)))"
proof (cases r)
  case (Inr v)
  have "guarded (setCachedVersion now (fst (taskKey task)) (snd (taskKey task)) v
           (s\<lparr>pending := remove1 task (pending s)\<rparr>))"
    by (rule guarded_store[OF assms(1)]) simp
  with Inr show ?thesis
    by (cases task)
       (simp_all add: lookupLatestVersion_resume_def refreshCacheEntry_resume_def
          initCallback_resume_def)
next
  case (Inl e)
  show ?thesis
  proof (cases task)
    case (AwaitLookup t p)
    with Inl guarded_remove_plain[OF assms(1), of task] show ?thesis
      by (simp add: lookupLatestVersion_resume_def)
  next
    case (AwaitInit t p)
    with Inl guarded_remove_plain[OF assms(1), of task] show ?thesis
      by (simp add: initCallback_resume_def)
  next
    case (AwaitRefresh t p entry)
    show ?thesis
    proof (cases entry)
      case None
      with AwaitRefresh Inl guarded_remove_plain[OF assms(1), of task] show ?thesis
        by (simp add: refreshCacheEntry_resume_def)
    next
      case (Some b)
      with AwaitRefresh Inl guarded_clear[OF assms(1), of t p b] assms(2) show ?thesis
        by (simp add: refreshCacheEntry_resume_def)
    qed
  qed
qed

lemma guarded_step: "guarded s \<Longrightarrow> guarded (snd (step e s))"
proof (cases e)
  case (Lookup now t p)
  assume "guarded s"
  from guarded_lookupLatestVersion[OF this, of now t p] Lookup show ?thesis
    by (cases "lookupLatestVersion now t p s") (auto split: option.splits)
next
  case (Settle now task raw)
  assume "guarded s"
  with Settle guarded_settle[OF this, of task now "lookupLatestVersionInternal raw"]
  show ?thesis by simp
qed (simp_all add: guarded_initializeCache)

lemma guarded_run: "guarded s \<Longrightarrow> guarded (run evs s)"
  unfolding run_def by (induction evs arbitrary: s) (simp_all add: guarded_step)

lemma one_holder_of_current_entry:
  "versionCache (run evs initial) (getCacheKey t p) = Some a \<Longrightarrow>
     count_list (pending (run evs initial)) (AwaitRefresh t p (Some a))
       = (if refreshing (heap (run evs initial) ! a) then 1 else 0)"
  using guarded_current[OF guarded_run[OF guarded_initial]] by blast

text \<open>What the guard of \<open>refreshCacheEntry\<close> does in one step: a lookup that finds the
  entry stale and unmarked marks it and starts one fetch; a lookup that finds it marked
  starts none.\<close>

lemma stale_lookup_starts_one_refresh:
  assumes "wellFormed s" and "versionCache s (getCacheKey t p) = Some a"
    and "\<not> isCacheValid now (heap s ! a)" and "\<not> refreshing (heap s ! a)"
  shows "lookupLatestVersion now t p s =
           (Some (version (heap s ! a)),
            s\<lparr>heap := (heap s)[a := (heap s ! a)\<lparr>refreshing := True\<rparr>],
              pending := pending s @ [AwaitRefresh t p (Some a)],
              calls := Suc (calls s)\<rparr>)"
  using assms wellFormed_key[OF assms(1,2)]
  by (simp add: lookupLatestVersion_def getCachedVersion_def checkAndRefreshCache_def
      refreshCacheEntry_def startFetch_def)

lemma lookup_during_refresh_starts_none:
  assumes "wellFormed s" and "versionCache s (getCacheKey t p) = Some a"
    and "refreshing (heap s ! a)"
  shows "lookupLatestVersion now t p s = (Some (version (heap s ! a)), s)"
  using assms wellFormed_key[OF assms(1,2)]
  by (simp add: lookupLatestVersion_def getCachedVersion_def checkAndRefreshCache_def
      refreshCacheEntry_def)

lemma lateMissTrace_state:
  "run lateMissTrace initial =
     \<lparr>versionCache = [''win-stable'' \<mapsto> 1],
      heap = [\<lparr>version = ''1.21.84.1'', timestamp = 0, refreshing = True\<rparr>,
              \<lparr>version = ''1.21.84.2'', timestamp = 21600000, refreshing = False\<rparr>],
      pending = [AwaitRefresh Win False (Some 0)],
      calls = 3\<rparr>"
  by (simp add: lateMissTrace_def eval_defs)

text \<open>
  C4. The single-flight guard does not hold in every run. After the run
  \<open>lateMissTrace\<close> one background refresh for the key is in flight; the cache-miss
  fetch that settled meanwhile has replaced the entry by a new object whose refreshing
  flag is false. When that entry has gone stale, the next lookup starts a second
  refresh while the first is still in flight.
\<close>

theorem second_refresh_while_first_in_flight:
  "pending (run lateMissTrace initial) = [AwaitRefresh Win False (Some 0)]
   \<and> calls (run lateMissTrace initial) = 3
   \<and> fst (step (Lookup 43200000 Win False) (run lateMissTrace initial)) = Resolved ''1.21.84.2''
   \<and> pending (snd (step (Lookup 43200000 Win False) (run lateMissTrace initial)))
        = [AwaitRefresh Win False (Some 0), AwaitRefresh Win False (Some 1)]
   \<and> calls (snd (step (Lookup 43200000 Win False) (run lateMissTrace initial))) = 4"
  unfolding lateMissTrace_state by (simp add: eval_defs)

lemma raceTrace_state:
  "run raceTrace initial =
     \<lparr>versionCache = [''win-stable'' \<mapsto> 1],
      heap = [\<lparr>version = ''1.21.84.1'', timestamp = 0, refreshing = True\<rparr>,
              \<lparr>version = ''1.21.84.2'', timestamp = 21600000, refreshing = True\<rparr>],
      pending = [AwaitRefresh Win False (Some 0), AwaitRefresh Win False (Some 1)],
      calls = 4\<rparr>"
proof -
  have "run raceTrace initial = snd (step (Lookup 43200000 Win False) (run lateMissTrace initial))"
    by (simp add: raceTrace_def run_def)
  then show ?thesis unfolding lateMissTrace_state by (simp add: eval_defs)
qed

text \<open>
  C5. A failed background refresh does not always leave the key's entry unmarked. After
  the run \<open>raceTrace\<close> two refreshes are in flight for the key: the first holds the
  object that was replaced, the second holds the entry the cache has now. When the
  fetch of the first fails, its \<^verbatim>\<open>catch\<close> block clears the flag of the replaced
  object only; version and fetch time of the cached entry are untouched, but that entry
  stays marked, and the next lookup that finds it stale returns its version and starts
  no fetch.
\<close>

theorem failed_refresh_in_race_leaves_entry_marked:
  "wellFormed (run raceTrace initial)
   \<and> AwaitRefresh Win False (Some 0) \<in> set (pending (run raceTrace initial))
   \<and> fst (step (Settle 43250000 (AwaitRefresh Win False (Some 0)) Threw) (run raceTrace initial))
        = NoReply
   \<and> heap (snd (step (Settle 43250000 (AwaitRefresh Win False (Some 0)) Threw)
              (run raceTrace initial)))
        = [\<lparr>version = ''1.21.84.1'', timestamp = 0, refreshing = False\<rparr>,
           \<lparr>version = ''1.21.84.2'', timestamp = 21600000, refreshing = True\<rparr>]
   \<and> versionCache (snd (step (Settle 43250000 (AwaitRefresh Win False (Some 0)) Threw)
              (run raceTrace initial))) (getCacheKey Win False) = Some 1
   \<and> step (Lookup 43300000 Win False)
        (snd (step (Settle 43250000 (AwaitRefresh Win False (Some 0)) Threw)
              (run raceTrace initial)))
        = (Resolved ''1.21.84.2'',
           snd (step (Settle 43250000 (AwaitRefresh Win False (Some 0)) Threw)
              (run raceTrace initial)))
   \<and> calls (snd (step (Settle 43250000 (AwaitRefresh Win False (Some 0)) Threw)
              (run raceTrace initial))) = 4"
proof -
  have w: "wellFormed (run raceTrace initial)" by (rule wellFormed_run[OF wellFormed_initial])
  show ?thesis using w unfolding raceTrace_state by (simp add: eval_defs)
qed

section \<open>Warm-up\<close>

lemma initCallback_resume_result [simp]: "fst (initCallback_resume now t p r s) = Inr ()"
  by (simp add: initCallback_resume_def split: sum.splits)

lemma wellFormed_initCallback_resume:
  "wellFormed s \<Longrightarrow> wellFormed (snd (initCallback_resume now t p (lookupLatestVersionInternal raw) s))"
  by (auto simp: initCallback_resume_def wellFormed_setCachedVersion fetched_nonempty split: sum.splits)

lemma cached_initCallback_same:
  "wellFormed s \<Longrightarrow> cached t p (snd (initCallback_resume now t p r s)) =
     (case r of Inr v \<Rightarrow> Some (v, now) | Inl e \<Rightarrow> cached t p s)"
  by (cases r) (simp_all add: initCallback_resume_def cached_setCachedVersion)

lemma cached_initCallback_other:
  "wellFormed s \<Longrightarrow> (t, p) \<noteq> (t', p') \<Longrightarrow>
     cached t p (snd (initCallback_resume now t' p' r s)) = cached t p s"
  by (cases r) (auto simp: initCallback_resume_def cached_setCachedVersion)

lemma settleInits_Cons_snd:
  "snd (settleInits (((t, p), now, raw) # rest) s) =
     snd (settleInits rest
       (snd (initCallback_resume now t p (lookupLatestVersionInternal raw)
          (s\<lparr>pending := remove1 (AwaitInit t p) (pending s)\<rparr>))))"
  by (simp add: case_prod_beta)

lemma settleInits_Cons_fst:
  "fst (settleInits (((t, p), now, raw) # rest) s) =
     Inr () # fst (settleInits rest
       (snd (initCallback_resume now t p (lookupLatestVersionInternal raw)
          (s\<lparr>pending := remove1 (AwaitInit t p) (pending s)\<rparr>))))"
  by (simp add: case_prod_beta)

lemma settleInits_results: "promise_all (fst (settleInits env s)) = Inr ()"
proof (induction env arbitrary: s)
  case Nil
  show ?case by simp
next
  case (Cons x env)
  obtain t p now raw where x: "x = ((t, p), now, raw)" by (cases x) auto
  show ?case unfolding x settleInits_Cons_fst using Cons.IH by simp
qed

lemma settleInits_wf: "wellFormed s \<Longrightarrow> wellFormed (snd (settleInits env s))"
proof (induction env arbitrary: s)
  case Nil
  then show ?case by simp
next
  case (Cons x env)
  obtain t p now raw where x: "x = ((t, p), now, raw)" by (cases x) auto
  let ?s1 = "s\<lparr>pending := remove1 (AwaitInit t p) (pending s)\<rparr>"
  from Cons.prems have "wellFormed ?s1" by simp
  from wellFormed_initCallback_resume[OF this, of now t p raw]
  have "wellFormed (snd (initCallback_resume now t p (lookupLatestVersionInternal raw) ?s1))" .
  from Cons.IH[OF this] show ?case unfolding x settleInits_Cons_snd .
qed

lemma settleInits_other:
  "wellFormed s \<Longrightarrow> (t, p) \<notin> fst ` set env \<Longrightarrow> cached t p (snd (settleInits env s)) = cached t p s"
proof (induction env arbitrary: s)
  case Nil
  then show ?case by simp
next
  case (Cons x env)
  obtain t' p' now raw where x: "x = ((t', p'), now, raw)" by (cases x) auto
  let ?s1 = "s\<lparr>pending := remove1 (AwaitInit t' p') (pending s)\<rparr>"
  let ?s2 = "snd (initCallback_resume now t' p' (lookupLatestVersionInternal raw) ?s1)"
  from Cons.prems have w1: "wellFormed ?s1" by simp
  from wellFormed_initCallback_resume[OF this, of now t' p' raw] have w2: "wellFormed ?s2" .
  from Cons.prems(2) x have ne: "(t, p) \<noteq> (t', p')" and rest: "(t, p) \<notin> fst ` set env"
    by auto
  from cached_initCallback_other[OF w1 ne] have "cached t p ?s2 = cached t p s" by simp
  with Cons.IH[OF w2 rest] show ?case unfolding x settleInits_Cons_snd by simp
qed

lemma settleInits_cached:
  "wellFormed s \<Longrightarrow> distinct (map fst env) \<Longrightarrow> ((t, p), now, raw) \<in> set env \<Longrightarrow>
     cached t p (snd (settleInits env s)) =
       (case lookupLatestVersionInternal raw of Inr v \<Rightarrow> Some (v, now) | Inl e \<Rightarrow> cached t p s)"
proof (induction env arbitrary: s)
  case Nil
  then show ?case by simp
next
  case (Cons x env)
  obtain t' p' now' raw' where x: "x = ((t', p'), now', raw')" by (cases x) auto
  let ?s1 = "s\<lparr>pending := remove1 (AwaitInit t' p') (pending s)\<rparr>"
  let ?s2 = "snd (initCallback_resume now' t' p' (lookupLatestVersionInternal raw') ?s1)"
  from Cons.prems have w1: "wellFormed ?s1" by simp
  from wellFormed_initCallback_resume[OF this, of now' t' p' raw'] have w2: "wellFormed ?s2" .
  have unfold: "snd (settleInits (x # env) s) = snd (settleInits env ?s2)"
    unfolding x settleInits_Cons_snd ..
  show ?case
  proof (cases "((t, p), now, raw) = x")
    case True
    with x have eq: "t' = t" "p' = p" "now' = now" "raw' = raw" by simp_all
    from Cons.prems(2) x eq have "(t, p) \<notin> fst ` set env" by simp
    from settleInits_other[OF w2 this]
    have "cached t p (snd (settleInits env ?s2)) = cached t p ?s2" .
    also have "\<dots> = (case lookupLatestVersionInternal raw of
                       Inr v \<Rightarrow> Some (v, now) | Inl e \<Rightarrow> cached t p s)"
      unfolding eq using cached_initCallback_same[OF w1[unfolded eq]] by (simp split: sum.splits)
    finally show ?thesis using unfold by simp
  next
    case False
    with Cons.prems(3) have mem: "((t, p), now, raw) \<in> set env" by simp
    then have in_env: "(t, p) \<in> fst ` set env" by force
    from Cons.prems(2) x have "(t', p') \<notin> fst ` set env" by simp
    with in_env have ne: "(t, p) \<noteq> (t', p')" by metis
    from Cons.prems(2) have d: "distinct (map fst env)" by simp
    from cached_initCallback_other[OF w1 ne] have c2: "cached t p ?s2 = cached t p s" by simp
    from Cons.IH[OF w2 d mem] c2 unfold show ?thesis by (simp split: sum.splits)
  qed
qed

text \<open>
  C7. The warm-up starts one fetch for each of the four keys before any of them settles.
  In whatever order the four fetches settle and whichever of them fail, the promise of
  \<open>initializeCache\<close> resolves (it is never rejected), every key whose fetch succeeded
  is cached with the fetched version afterwards, and a key whose fetch failed is left
  as it was.
\<close>

theorem warmup_isolates_failures:
  assumes "wellFormed s" and "distinct (map fst env)" and "set (map fst env) = set combinations"
  shows "fst (initializeCache_run env s) = Inr ()
       \<and> calls (initializeCache s) = calls s + 4
       \<and> pending (initializeCache s) = pending s @ map (\<lambda>(t, p). AwaitInit t p) combinations
       \<and> (\<forall>((t, p), now, raw) \<in> set env.
             case lookupLatestVersionInternal raw of
               Inr v \<Rightarrow> getCachedVersion t p (snd (initializeCache_run env s)) = Some v
             | Inl e \<Rightarrow> getCachedVersion t p (snd (initializeCache_run env s))
                          = getCachedVersion t p s)"
proof -
  have run: "snd (initializeCache_run env s) = snd (settleInits env (initializeCache s))"
    and res: "fst (initializeCache_run env s) = promise_all (fst (settleInits env (initializeCache s)))"
    by (simp_all add: initializeCache_run_def split: prod.splits)
  from assms(1) have w: "wellFormed (initializeCache s)" by simp
  have "getCachedVersion t p (snd (initializeCache_run env s)) =
         (case lookupLatestVersionInternal raw of Inr v \<Rightarrow> Some v
          | Inl e \<Rightarrow> getCachedVersion t p s)"
    if "((t, p), now, raw) \<in> set env" for t p now raw
    using settleInits_cached[OF w assms(2) that]
    by (simp add: run getCachedVersion_cached split: sum.splits)
  then have "\<forall>((t, p), now, raw) \<in> set env.
             case lookupLatestVersionInternal raw of
               Inr v \<Rightarrow> getCachedVersion t p (snd (initializeCache_run env s)) = Some v
             | Inl e \<Rightarrow> getCachedVersion t p (snd (initializeCache_run env s))
                          = getCachedVersion t p s"
    by (auto split: sum.splits)
  moreover have "calls (initializeCache s) = calls s + 4"
    by (simp add: initializeCache_def combinations_def startFetch_def)
  moreover have "pending (initializeCache s)
                   = pending s @ map (\<lambda>(t, p). AwaitInit t p) combinations"
    by (simp add: initializeCache_def combinations_def startFetch_def)
  ultimately show ?thesis using res settleInits_results by simp
qed

theorem warmup_isolates_failures_witness:
  "fst (initializeCache_run warmupOrder initial) = Inr ()
   \<and> getCachedVersion Linux False (snd (initializeCache_run warmupOrder initial)) = Some ''1.21.84.1''
   \<and> getCachedVersion Win False (snd (initializeCache_run warmupOrder initial)) = Some ''1.21.84.1''
   \<and> getCachedVersion Win True (snd (initializeCache_run warmupOrder initial)) = None
   \<and> getCachedVersion Linux True (snd (initializeCache_run warmupOrder initial)) = None"
proof -
  have d: "distinct (map fst warmupOrder)" by (simp add: warmupOrder_def)
  have s: "set (map fst warmupOrder) = set combinations"
    by (auto simp: warmupOrder_def combinations_def)
  have n: "getCachedVersion t p initial = None" for t p
    by (simp add: getCachedVersion_def initial_def)
  from warmup_isolates_failures[OF wellFormed_initial d s]
  show ?thesis by (simp add: warmupOrder_def exampleLink_def n)
qed

section \<open>Status\<close>

text \<open>
  C8. A status call is a pure read: it leaves the state as it was. Two status calls with
  no other step of the process between them return bodies that agree in the TTL fields
  and in the entries; they differ only in the response timestamp, which is the time of
  each call.
\<close>

theorem status_is_pure_read:
  "snd (step (Status now) s) = s
   \<and> fst (step (Status now) s) = StatusReply (cacheStatus now s)
   \<and> run [Status now, Status now'] s = s
   \<and> fst (step (Status now') (snd (step (Status now) s)))
        = StatusReply ((cacheStatus now s)\<lparr>responseTimestamp := now'\<rparr>)"
  by (simp add: cacheStatus_def run_def)

text \<open>The bodies themselves are not identical: two calls a millisecond apart differ
  in that timestamp.\<close>

theorem status_output_differs_counterexample:
  "fst (step (Status 1) (snd (step (Status 0) initial))) \<noteq> fst (step (Status 0) initial)"
  by (simp add: cacheStatus_def)

text \<open>Between two status calls the entries can change without any lookup, when a
  background refresh settles.\<close>

lemma status_changes_when_refresh_settles:
  "entries (cacheStatus now
      (snd (step (Settle 21609000 (AwaitRefresh Win False (Some 0)) laterLink) refreshingState)))
   \<noteq> entries (cacheStatus now refreshingState)"
  by (simp add: refreshingState_state eval_defs cacheStatus_def combinations_def)

section \<open>The preview parameter\<close>

lemma toLowerChar_eq_iff:
  assumes "\<not> (65 \<le> (of_char y :: nat) \<and> (of_char y :: nat) \<le> 90)"
  shows "toLowerChar x = y \<longleftrightarrow> sameLetter x y"
proof (cases "65 \<le> (of_char x :: nat) \<and> (of_char x :: nat) \<le> 90")
  case True
  then have lower: "toLowerChar x = char_of ((of_char x :: nat) + 32)"
    by (simp add: toLowerChar_def Let_def)
  from True have small: "((of_char x :: nat) + 32) mod 256 = of_char x + 32" by simp
  have "char_of ((of_char x :: nat) + 32) = y \<longleftrightarrow> (of_char y :: nat) = of_char x + 32"
  proof
    assume "char_of ((of_char x :: nat) + 32) = y"
    then have "(of_char y :: nat) = of_char (char_of ((of_char x :: nat) + 32))" by simp
    with small show "(of_char y :: nat) = of_char x + 32" by (simp add: of_char_of)
  next
    assume "(of_char y :: nat) = of_char x + 32"
    then have "char_of ((of_char x :: nat) + 32) = char_of (of_char y :: nat)" by simp
    then show "char_of ((of_char x :: nat) + 32) = y" by simp
  qed
  moreover from True assms have "x \<noteq> y" by auto
  ultimately show ?thesis using True assms lower by (auto simp: sameLetter_def)
next
  case False
  then have "toLowerChar x = x" by (auto simp: toLowerChar_def Let_def)
  with False assms show ?thesis by (auto simp: sameLetter_def)
qed

lemma toLowerCase_eq_iff:
  "\<forall>c \<in> set w. \<not> (65 \<le> (of_char c :: nat) \<and> (of_char c :: nat) \<le> 90) \<Longrightarrow>
     toLowerCase s = w \<longleftrightarrow> equalIgnoringCase s w"
proof (induction s w rule: equalIgnoringCase.induct)
  case 1
  show ?case by (simp add: toLowerCase_def)
next
  case (2 x xs y ys)
  then show ?case using toLowerChar_eq_iff[of y x] by (auto simp: toLowerCase_def)
qed (simp_all add: toLowerCase_def)

text \<open>
  C10. \<open>parsePreviewParam\<close> is a total function of its argument: it gives true exactly on
  the strings that equal \<open>true\<close> or \<open>1\<close> up to the case of letters, false exactly
  on those that equal \<open>false\<close> or \<open>0\<close> up to case, and null on every other
  string.
\<close>

theorem parsePreviewParam_accepts_exactly:
  "parsePreviewParam preview =
     (if equalIgnoringCase preview ''true'' \<or> equalIgnoringCase preview ''1'' then Some True
      else if equalIgnoringCase preview ''false'' \<or> equalIgnoringCase preview ''0'' then Some False
      else None)"
proof -
  have t: "toLowerCase preview = ''true'' \<longleftrightarrow> equalIgnoringCase preview ''true''"
    by (rule toLowerCase_eq_iff) simp
  have o: "toLowerCase preview = ''1'' \<longleftrightarrow> equalIgnoringCase preview ''1''"
    by (rule toLowerCase_eq_iff) simp
  have f: "toLowerCase preview = ''false'' \<longleftrightarrow> equalIgnoringCase preview ''false''"
    by (rule toLowerCase_eq_iff) simp
  have z: "toLowerCase preview = ''0'' \<longleftrightarrow> equalIgnoringCase preview ''0''"
    by (rule toLowerCase_eq_iff) simp
  show ?thesis unfolding parsePreviewParam_def Let_def t o f z ..
qed

theorem parsePreviewParam_accepts_exactly_witness:
  "parsePreviewParam ''TrUe'' = Some True \<and> parsePreviewParam ''1'' = Some True
   \<and> parsePreviewParam ''FALSE'' = Some False \<and> parsePreviewParam ''0'' = Some False
   \<and> parsePreviewParam ''yes'' = None \<and> parsePreviewParam '''' = None
   \<and> parsePreviewParam ''true '' = None"
  by (simp add: parsePreviewParam_accepts_exactly sameLetter_def)

end
